theory Spec2Isabelle
  imports Main
begin

section \<open>The 90/180 compliance engine of \<^verbatim>\<open>src/src/main.tsx\<close>\<close>

text \<open>
  The engine works on calendar dates only. The source carries them as \<^verbatim>\<open>YYYY-MM-DD\<close>
  strings and converts them to local-midnight \<^verbatim>\<open>Date\<close> objects with \<^verbatim>\<open>parseISO\<close>
  before every comparison and back with \<^verbatim>\<open>format\<close>. Here a calendar date is its day
  ordinal, an \<open>int\<close>: \<^verbatim>\<open>parseISO\<close> and \<^verbatim>\<open>format\<close> are the identity, the order of
  the zero-padded strings (\<^verbatim>\<open>localeCompare\<close>, the default \<^verbatim>\<open>sort\<close>) is the order of
  the ordinals, and the functions of date-fns that the engine calls are the arithmetic
  below. Time of day, time zones and daylight saving are outside this model.
\<close>

subsection \<open>Dates\<close>

definition addDays :: "int \<Rightarrow> int \<Rightarrow> int" where
  "addDays date amount = date + amount"

definition subDaysPolyfill :: "int \<Rightarrow> int \<Rightarrow> int" where
  "subDaysPolyfill date amount = addDays date (- amount)"

definition isBefore :: "int \<Rightarrow> int \<Rightarrow> bool" where
  "isBefore a b = (a < b)"

definition isAfter :: "int \<Rightarrow> int \<Rightarrow> bool" where
  "isAfter a b = (b < a)"

definition differenceInCalendarDays :: "int \<Rightarrow> int \<Rightarrow> int" where
  "differenceInCalendarDays later earlier = later - earlier"

definition eachDayOfInterval :: "int \<Rightarrow> int \<Rightarrow> int list" where
  "eachDayOfInterval start end = [start..end]"

subsection \<open>Types\<close>

record Trip =
  tripId :: string
  entryDate :: int
  exitDate :: int

record Profile =
  profileId :: string
  name :: string
  trips :: "Trip list"

record StayCheck =
  isAllowed :: bool
  violationDate :: "int option"
  usedOnExit :: int

record MaxStay =
  maxDays :: int
  untilDate :: int

subsection \<open>normalizeTrips\<close>

text \<open>
  The \<^verbatim>\<open>for\<close> loop of \<^verbatim>\<open>normalizeTrips\<close>: \<open>normalized\<close> is the array that is pushed
  to, \<open>current\<close> the running trip, the list argument what is left of \<open>sorted\<close>. A merge
  keeps every field of \<open>current\<close> but the exit date.
\<close>

fun mergeLoop :: "Trip list \<Rightarrow> Trip \<Rightarrow> Trip list \<Rightarrow> Trip list" where
  "mergeLoop normalized current [] = normalized @ [current]"
| "mergeLoop normalized current (next # rest) =
     (let currentEnd = exitDate current;
          nextStart = entryDate next;
          adjacentDate = addDays currentEnd 1
      in if isBefore nextStart adjacentDate \<or> nextStart = adjacentDate then
           (let maxExit = (if isAfter (exitDate next) currentEnd then exitDate next
                           else exitDate current)
            in mergeLoop normalized (current\<lparr>exitDate := maxExit\<rparr>) rest)
         else mergeLoop (normalized @ [current]) next rest)"

text \<open>
  \<^verbatim>\<open>Array.prototype.sort\<close> is stable, and so is \<open>sort_key\<close>. The empty input returns
  before the loop.
\<close>

definition normalizeTrips :: "Trip list \<Rightarrow> Trip list" where
  "normalizeTrips ts =
     (if length ts = 0 then []
      else (case sort_key entryDate ts of
              [] \<Rightarrow> []
            | current # rest \<Rightarrow> mergeLoop [] current rest))"

subsection \<open>calculateUsedDaysWithinWindow\<close>

fun usedLoop :: "int \<Rightarrow> int \<Rightarrow> Trip list \<Rightarrow> int \<Rightarrow> int" where
  "usedLoop windowStart refDateObj [] daysUsed = daysUsed"
| "usedLoop windowStart refDateObj (trip # rest) daysUsed =
     (let tripStart = entryDate trip;
          tripEnd = exitDate trip;
          overlapStart = (if isBefore tripStart windowStart then windowStart else tripStart);
          overlapEnd = (if isAfter tripEnd refDateObj then refDateObj else tripEnd)
      in usedLoop windowStart refDateObj rest
           (if \<not> isAfter overlapStart overlapEnd
            then daysUsed + (differenceInCalendarDays overlapEnd overlapStart + 1)
            else daysUsed))"

definition calculateUsedDaysWithinWindow :: "Trip list \<Rightarrow> int \<Rightarrow> int" where
  "calculateUsedDaysWithinWindow ts referenceDate =
     (let refDateObj = referenceDate;
          windowStart = subDaysPolyfill refDateObj 179
      in usedLoop windowStart refDateObj ts 0)"

subsection \<open>canStayForPeriod\<close>

text \<open>
  The day-by-day scan. \<open>Some (d, used)\<close> is the early \<^verbatim>\<open>return\<close> inside the loop, with
  the day checked and the usage found there; \<open>None\<close> is the loop running to its end.
\<close>

function scanDays :: "Trip list \<Rightarrow> int \<Rightarrow> int \<Rightarrow> int \<Rightarrow> (int \<times> int) option" where
  "scanDays combinedTrips start days i =
     (if i < days then
        (let checkDate = addDays start i;
             used = calculateUsedDaysWithinWindow combinedTrips checkDate
         in if used > 90 then Some (checkDate, used)
            else scanDays combinedTrips start days (i + 1))
      else None)"
  by pat_completeness auto
termination
  by (relation "measure (\<lambda>(c, s, days, i). nat (days - i))") auto

declare scanDays.simps [simp del]

definition canStayForPeriod :: "Trip list \<Rightarrow> int \<Rightarrow> int \<Rightarrow> StayCheck" where
  "canStayForPeriod existingTrips plannedEntry plannedExit =
     (let tempTrip = \<lparr>tripId = ''temp'', entryDate = plannedEntry, exitDate = plannedExit\<rparr>;
          combinedTrips = normalizeTrips (existingTrips @ [tempTrip]);
          start = plannedEntry;
          end = plannedExit;
          days = differenceInCalendarDays end start + 1
      in case scanDays combinedTrips start days 0 of
           Some (checkDate, used) \<Rightarrow>
             \<lparr>isAllowed = False, violationDate = Some checkDate, usedOnExit = used\<rparr>
         | None \<Rightarrow>
             (let finalUsed = calculateUsedDaysWithinWindow combinedTrips plannedExit
              in \<lparr>isAllowed = True, violationDate = None, usedOnExit = finalUsed\<rparr>))"

subsection \<open>getMaxSafeStayFromDate\<close>

text \<open>The loop \<^verbatim>\<open>for (let i = 1; i <= 90; i++)\<close> with its \<^verbatim>\<open>break\<close>.\<close>

function safeLoop :: "Trip list \<Rightarrow> int \<Rightarrow> int \<Rightarrow> int \<Rightarrow> int" where
  "safeLoop ts plannedEntry i safeLength =
     (if i \<le> 90 then
        (let currentExit = addDays plannedEntry (i - 1);
             check = canStayForPeriod ts plannedEntry currentExit
         in if \<not> isAllowed check then safeLength
            else safeLoop ts plannedEntry (i + 1) i)
      else safeLength)"
  by pat_completeness auto
termination
  by (relation "measure (\<lambda>(t, e, i, s). nat (91 - i))") auto

declare safeLoop.simps [simp del]

definition getMaxSafeStayFromDate :: "Trip list \<Rightarrow> int \<Rightarrow> MaxStay" where
  "getMaxSafeStayFromDate ts plannedEntry =
     (let safeLength = safeLoop ts plannedEntry 1 0
      in \<lparr>maxDays = safeLength,
          untilDate = addDays plannedEntry (safeLength - 1)\<rparr>)"

subsection \<open>The date set of the edit operations\<close>

text \<open>
  A JavaScript \<^verbatim>\<open>Set\<close> keeps its members in insertion order without repetition:
  a list, to which \<open>setAdd\<close> appends a new member only. \<^verbatim>\<open>crypto.randomUUID()\<close>
  is the parameter \<open>uuid\<close>: \<open>uuid k\<close> is the identifier drawn by the \<open>k\<close>-th call
  inside one run of \<^verbatim>\<open>updateTripsFromSet\<close>.
\<close>

definition setAdd :: "int \<Rightarrow> int list \<Rightarrow> int list" where
  "setAdd d dateSet = (if d \<in> set dateSet then dateSet else dateSet @ [d])"

definition setDelete :: "int \<Rightarrow> int list \<Rightarrow> int list" where
  "setDelete d dateSet = removeAll d dateSet"

definition setHas :: "int list \<Rightarrow> int \<Rightarrow> bool" where
  "setHas dateSet d = (d \<in> set dateSet)"

fun rleLoop :: "(nat \<Rightarrow> string) \<Rightarrow> Trip list \<Rightarrow> int \<Rightarrow> int \<Rightarrow> int list \<Rightarrow> Trip list" where
  "rleLoop uuid newTrips tripStart tripPrev [] =
     newTrips @ [\<lparr>tripId = uuid (length newTrips), entryDate = tripStart, exitDate = tripPrev\<rparr>]"
| "rleLoop uuid newTrips tripStart tripPrev (currDate # rest) =
     (if differenceInCalendarDays currDate tripPrev = 1 then
        rleLoop uuid newTrips tripStart currDate rest
      else
        rleLoop uuid
          (newTrips @ [\<lparr>tripId = uuid (length newTrips), entryDate = tripStart, exitDate = tripPrev\<rparr>])
          currDate currDate rest)"

definition updateTripsFromSet :: "(nat \<Rightarrow> string) \<Rightarrow> Profile \<Rightarrow> int list \<Rightarrow> Profile" where
  "updateTripsFromSet uuid profile dateSet =
     (let sortedDates = sort dateSet
      in case sortedDates of
           [] \<Rightarrow> profile\<lparr>trips := []\<rparr>
         | first # rest \<Rightarrow> profile\<lparr>trips := rleLoop uuid [] first first rest\<rparr>)"

text \<open>
  The block that \<^verbatim>\<open>toggleDate\<close> and \<^verbatim>\<open>addTripRange\<close> both start with: every day of
  every stored trip is added to a fresh set. \<open>addTripDays\<close> is the inner loop
  \<^verbatim>\<open>for (let i = 0; i <= days; i++)\<close>.
\<close>

function addTripDays :: "int \<Rightarrow> int \<Rightarrow> int \<Rightarrow> int list \<Rightarrow> int list" where
  "addTripDays start days i dateSet =
     (if i \<le> days then addTripDays start days (i + 1) (setAdd (addDays start i) dateSet)
      else dateSet)"
  by pat_completeness auto
termination
  by (relation "measure (\<lambda>(s, days, i, d). nat (days + 1 - i))") auto

declare addTripDays.simps [simp del]

fun tripsToDateSet :: "Trip list \<Rightarrow> int list \<Rightarrow> int list" where
  "tripsToDateSet [] dateSet = dateSet"
| "tripsToDateSet (t # rest) dateSet =
     (let start = entryDate t;
          end = exitDate t;
          days = differenceInCalendarDays end start
      in tripsToDateSet rest (addTripDays start days 0 dateSet))"

definition toggleDate :: "(nat \<Rightarrow> string) \<Rightarrow> Profile \<Rightarrow> int \<Rightarrow> Profile" where
  "toggleDate uuid p dateStr =
     (let dateSet = tripsToDateSet (trips p) [];
          dateSet' = (if setHas dateSet dateStr then setDelete dateStr dateSet
                      else setAdd dateStr dateSet)
      in updateTripsFromSet uuid p dateSet')"

definition addTripRange :: "(nat \<Rightarrow> string) \<Rightarrow> Profile \<Rightarrow> int \<Rightarrow> int \<Rightarrow> Profile" where
  "addTripRange uuid p startDateStr endDateStr =
     (let dateSet = tripsToDateSet (trips p) [];
          d1 = startDateStr;
          d2 = endDateStr;
          start = (if isBefore d1 d2 then d1 else d2);
          end = (if isAfter d1 d2 then d1 else d2);
          interval = eachDayOfInterval start end
      in updateTripsFromSet uuid p (fold setAdd interval dateSet))"

subsection \<open>Vocabulary of the properties\<close>

text \<open>
  The calendar days of one trip, the days covered by a trip list, and the trailing
  window of a reference date. A trip whose exit precedes its entry has no day.
\<close>

definition tripDays :: "Trip \<Rightarrow> int set" where
  "tripDays t = {entryDate t..exitDate t}"

definition coveredDays :: "Trip list \<Rightarrow> int set" where
  "coveredDays ts = (\<Union>t\<in>set ts. tripDays t)"

definition referenceWindow :: "int \<Rightarrow> int set" where
  "referenceWindow D = {D - 179..D}"


text \<open>
  The invariant of a normalised interval set: sorted ascending by entry date, no two
  trips share a day, every trip starts at least two days after the exit of the one
  before it, and no trip exits before it enters.
\<close>

definition normalizedIntervalSet :: "Trip list \<Rightarrow> bool" where
  "normalizedIntervalSet ts \<longleftrightarrow>
     sorted (map entryDate ts)
     \<and> sorted_wrt (\<lambda>a b. tripDays a \<inter> tripDays b = {}) ts
     \<and> successively (\<lambda>a b. exitDate a + 2 \<le> entryDate b) ts
     \<and> (\<forall>t \<in> set ts. entryDate t \<le> exitDate t)"

section \<open>Verification\<close>

lemmas date_defs =
  addDays_def subDaysPolyfill_def isBefore_def isAfter_def differenceInCalendarDays_def
  eachDayOfInterval_def

subsection \<open>Window usage\<close>

lemma tripDays_window_card:
  "int (card (tripDays t \<inter> {ws..D})) =
     (if max (entryDate t) ws \<le> min (exitDate t) D
      then min (exitDate t) D - max (entryDate t) ws + 1 else 0)"
  by (auto simp: tripDays_def max_def min_def)

lemma usedLoop_sum:
  "usedLoop ws D ts acc = acc + (\<Sum>t\<leftarrow>ts. int (card (tripDays t \<inter> {ws..D})))"
proof (induction ts arbitrary: acc)
  case Nil
  show ?case by simp
next
  case (Cons t ts)
  show ?case
    unfolding usedLoop.simps Let_def Cons.IH
    by (simp add: tripDays_window_card date_defs max_def min_def)
qed

lemma used_sum:
  "calculateUsedDaysWithinWindow ts D =
     (\<Sum>t\<leftarrow>ts. int (card (tripDays t \<inter> referenceWindow D)))"
  by (simp add: calculateUsedDaysWithinWindow_def usedLoop_sum referenceWindow_def date_defs)


subsection \<open>Normalisation\<close>

lemma mergeLoop_step:
  "mergeLoop acc c (n # r) =
     (if entryDate n \<le> exitDate c + 1
      then mergeLoop acc (c\<lparr>exitDate := max (exitDate c) (exitDate n)\<rparr>) r
      else mergeLoop (acc @ [c]) n r)"
  by (auto simp: date_defs Let_def max_def)

declare mergeLoop.simps(2) [simp del]

lemma mergeLoop_acc: "mergeLoop acc c xs = acc @ mergeLoop [] c xs"
proof (induction xs arbitrary: acc c)
  case Nil
  show ?case by simp
next
  case (Cons n r)
  show ?case
  proof (cases "entryDate n \<le> exitDate c + 1")
    case True
    then show ?thesis
      using Cons.IH[of acc] by (simp add: mergeLoop_step)
  next
    case False
    have "mergeLoop (acc @ [c]) n r = (acc @ [c]) @ mergeLoop [] n r"
      by (rule Cons.IH)
    moreover have "mergeLoop ([] @ [c]) n r = ([] @ [c]) @ mergeLoop [] n r"
      by (rule Cons.IH)
    ultimately show ?thesis
      using False by (simp add: mergeLoop_step)
  qed
qed

lemma mergeLoop_Cons:
  "mergeLoop [] c (n # r) =
     (if entryDate n \<le> exitDate c + 1
      then mergeLoop [] (c\<lparr>exitDate := max (exitDate c) (exitDate n)\<rparr>) r
      else c # mergeLoop [] n r)"
  using mergeLoop_acc[of "[c]" n r] by (simp add: mergeLoop_step)

lemma mergeLoop_hd:
  "mergeLoop [] c xs \<noteq> [] \<and> entryDate (hd (mergeLoop [] c xs)) = entryDate c"
  by (induction xs arbitrary: c) (simp_all add: mergeLoop_Cons)

lemma mergeLoop_entries:
  "entryDate ` set (mergeLoop [] c xs) \<subseteq> entryDate ` set (c # xs)"
proof (induction xs arbitrary: c)
  case Nil
  show ?case by simp
next
  case (Cons n r)
  show ?case
  proof (cases "entryDate n \<le> exitDate c + 1")
    case True
    let ?c' = "c\<lparr>exitDate := max (exitDate c) (exitDate n)\<rparr>"
    have "entryDate ` set (mergeLoop [] ?c' r) \<subseteq> entryDate ` set (?c' # r)"
      by (rule Cons.IH)
    also have "\<dots> \<subseteq> entryDate ` set (c # n # r)"
      by auto
    finally show ?thesis
      using True by (simp only: mergeLoop_Cons if_True)
  next
    case False
    have "entryDate ` set (mergeLoop [] n r) \<subseteq> entryDate ` set (n # r)"
      by (rule Cons.IH)
    then have "entryDate ` set (c # mergeLoop [] n r) \<subseteq> entryDate ` set (c # n # r)"
      by auto
    then show ?thesis
      using False by (simp only: mergeLoop_Cons if_False)
  qed
qed

lemma mergeLoop_sorted:
  "sorted (map entryDate (c # xs)) \<Longrightarrow> sorted (map entryDate (mergeLoop [] c xs))"
proof (induction xs arbitrary: c)
  case Nil
  show ?case by simp
next
  case (Cons n r)
  show ?case
  proof (cases "entryDate n \<le> exitDate c + 1")
    case True
    have "sorted (map entryDate (c\<lparr>exitDate := max (exitDate c) (exitDate n)\<rparr> # r))"
      using Cons.prems by auto
    then show ?thesis
      using True Cons.IH by (simp add: mergeLoop_Cons)
  next
    case False
    have s: "sorted (map entryDate (n # r))"
      using Cons.prems by simp
    have "\<forall>e \<in> entryDate ` set (mergeLoop [] n r). entryDate c \<le> e"
      using mergeLoop_entries[of n r] Cons.prems by auto
    then show ?thesis
      using False Cons.IH[OF s] by (simp add: mergeLoop_Cons)
  qed
qed

lemma mergeLoop_gaps:
  "successively (\<lambda>a b. exitDate a + 2 \<le> entryDate b) (mergeLoop [] c xs)"
proof (induction xs arbitrary: c)
  case Nil
  show ?case by simp
next
  case (Cons n r)
  show ?case
  proof (cases "entryDate n \<le> exitDate c + 1")
    case True
    then show ?thesis
      using Cons.IH by (simp add: mergeLoop_Cons)
  next
    case False
    then show ?thesis
      using Cons.IH[of n] mergeLoop_hd[of n r]
      by (simp add: mergeLoop_Cons successively_Cons)
  qed
qed

lemma merge_tripDays:
  assumes "entryDate c \<le> entryDate n" and "entryDate n \<le> exitDate c + 1"
  shows "tripDays (c\<lparr>exitDate := max (exitDate c) (exitDate n)\<rparr>) = tripDays c \<union> tripDays n"
  using assms by (auto simp: tripDays_def)

lemma coveredDays_Cons: "coveredDays (t # ts) = tripDays t \<union> coveredDays ts"
  by (simp add: coveredDays_def)

lemma coveredDays_Nil: "coveredDays [] = {}"
  by (simp add: coveredDays_def)

lemma mergeLoop_covered:
  "sorted (map entryDate (c # xs)) \<Longrightarrow>
     coveredDays (mergeLoop [] c xs) = tripDays c \<union> coveredDays xs"
proof (induction xs arbitrary: c)
  case Nil
  show ?case by (simp add: coveredDays_Cons coveredDays_Nil)
next
  case (Cons n r)
  show ?case
  proof (cases "entryDate n \<le> exitDate c + 1")
    case True
    let ?c' = "c\<lparr>exitDate := max (exitDate c) (exitDate n)\<rparr>"
    have s: "sorted (map entryDate (?c' # r))"
      using Cons.prems by auto
    have "tripDays ?c' = tripDays c \<union> tripDays n"
      using merge_tripDays[of c n] True Cons.prems by simp
    then show ?thesis
      using True Cons.IH[OF s] by (simp add: mergeLoop_Cons coveredDays_Cons Un_assoc)
  next
    case False
    have s: "sorted (map entryDate (n # r))"
      using Cons.prems by simp
    show ?thesis
      using False Cons.IH[OF s] by (simp add: mergeLoop_Cons coveredDays_Cons)
  qed
qed


lemma normalizeTrips_Nil: "normalizeTrips [] = []"
  by (simp add: normalizeTrips_def)

lemma normalizeTrips_eq:
  "normalizeTrips ts = (case sort_key entryDate ts of [] \<Rightarrow> [] | c # xs \<Rightarrow> mergeLoop [] c xs)"
  by (cases ts) (simp_all add: normalizeTrips_def)

lemma sort_key_Cons_facts:
  assumes "sort_key entryDate ts = c # xs"
  shows "sorted (map entryDate (c # xs))" and "set (c # xs) = set ts"
proof -
  show "sorted (map entryDate (c # xs))"
    unfolding assms[symmetric] by (rule sorted_sort_key)
  show "set (c # xs) = set ts"
    unfolding assms[symmetric] by (rule set_sort)
qed

lemma sort_key_Nil_iff: "sort_key entryDate ts = [] \<longleftrightarrow> ts = []"
proof
  assume "sort_key entryDate ts = []"
  then have "length (sort_key entryDate ts) = 0" by (simp only: list.size)
  then show "ts = []" by (simp only: length_sort length_0_conv)
next
  assume "ts = []"
  then show "sort_key entryDate ts = []" by simp
qed

lemma normalizeTrips_sorted: "sorted (map entryDate (normalizeTrips ts))"
proof (cases "sort_key entryDate ts")
  case Nil
  then show ?thesis by (simp add: normalizeTrips_eq)
next
  case (Cons c xs)
  have "sorted (map entryDate (mergeLoop [] c xs))"
    by (rule mergeLoop_sorted[OF sort_key_Cons_facts(1)[OF Cons]])
  then show ?thesis by (simp add: normalizeTrips_eq Cons)
qed

lemma normalizeTrips_gaps:
  "successively (\<lambda>a b. exitDate a + 2 \<le> entryDate b) (normalizeTrips ts)"
proof (cases "sort_key entryDate ts")
  case Nil
  then show ?thesis by (simp add: normalizeTrips_eq)
next
  case (Cons c xs)
  then show ?thesis by (simp add: normalizeTrips_eq mergeLoop_gaps)
qed

lemma normalizeTrips_covered: "coveredDays (normalizeTrips ts) = coveredDays ts"
proof (cases "sort_key entryDate ts")
  case Nil
  then have "ts = []" by (simp only: sort_key_Nil_iff)
  then show ?thesis by (simp add: normalizeTrips_Nil)
next
  case (Cons c xs)
  have "coveredDays (mergeLoop [] c xs) = tripDays c \<union> coveredDays xs"
    by (rule mergeLoop_covered[OF sort_key_Cons_facts(1)[OF Cons]])
  also have "\<dots> = coveredDays (c # xs)"
    by (simp only: coveredDays_Cons)
  also have "\<dots> = coveredDays ts"
    unfolding coveredDays_def by (simp only: sort_key_Cons_facts(2)[OF Cons])
  finally show ?thesis by (simp add: normalizeTrips_eq Cons)
qed


lemma gaps_sorted_strong:
  "sorted (map entryDate ts) \<Longrightarrow> successively (\<lambda>a b. exitDate a + 2 \<le> entryDate b) ts \<Longrightarrow>
     sorted_wrt (\<lambda>a b. exitDate a + 2 \<le> entryDate b) ts"
proof (induction ts)
  case Nil
  show ?case by simp
next
  case step: (Cons t ts)
  show ?case
  proof (cases ts)
    case Nil
    then show ?thesis by simp
  next
    case (Cons u us)
    have "exitDate t + 2 \<le> entryDate u"
      using step.prems(2) Cons by simp
    moreover have "\<forall>b \<in> set ts. entryDate u \<le> entryDate b"
      using step.prems(1) Cons by auto
    ultimately have "\<forall>b \<in> set ts. exitDate t + 2 \<le> entryDate b"
      by fastforce
    then show ?thesis
      using step.IH step.prems Cons by simp
  qed
qed

subsection \<open>Usage of a normalised list\<close>

lemma finite_tripDays: "finite (tripDays t)"
  by (simp add: tripDays_def)

lemma finite_coveredDays: "finite (coveredDays ts)"
  by (simp add: coveredDays_def finite_tripDays)

lemma disjoint_sum_card:
  "sorted_wrt (\<lambda>a b. tripDays a \<inter> tripDays b = {}) ts \<Longrightarrow>
     (\<Sum>t\<leftarrow>ts. int (card (tripDays t \<inter> W))) = int (card (coveredDays ts \<inter> W))"
proof (induction ts)
  case Nil
  show ?case by (simp add: coveredDays_Nil)
next
  case (Cons t ts)
  have d: "tripDays t \<inter> coveredDays ts = {}"
    using Cons.prems by (auto simp: coveredDays_def)
  have "(tripDays t \<inter> W) \<inter> (coveredDays ts \<inter> W) = {}"
    using d by blast
  then have "card ((tripDays t \<inter> W) \<union> (coveredDays ts \<inter> W)) =
      card (tripDays t \<inter> W) + card (coveredDays ts \<inter> W)"
    by (intro card_Un_disjoint) (simp_all add: finite_tripDays finite_coveredDays)
  moreover have "coveredDays (t # ts) \<inter> W = (tripDays t \<inter> W) \<union> (coveredDays ts \<inter> W)"
    by (auto simp: coveredDays_Cons)
  ultimately show ?case
    using Cons.IH Cons.prems by simp
qed

lemma gap_disjoint:
  "exitDate a + 2 \<le> entryDate b \<Longrightarrow> tripDays a \<inter> tripDays b = {}"
  by (auto simp: tripDays_def)

lemma normalizeTrips_strong:
  "sorted_wrt (\<lambda>a b. exitDate a + 2 \<le> entryDate b) (normalizeTrips ts)"
  by (rule gaps_sorted_strong[OF normalizeTrips_sorted normalizeTrips_gaps])

lemma normalizeTrips_disjoint:
  "sorted_wrt (\<lambda>a b. tripDays a \<inter> tripDays b = {}) (normalizeTrips ts)"
  by (rule sorted_wrt_mono_rel[OF _ normalizeTrips_strong]) (rule gap_disjoint)

lemma used_normalizeTrips:
  "calculateUsedDaysWithinWindow (normalizeTrips ts) D =
     int (card (coveredDays ts \<inter> referenceWindow D))"
  by (simp only: used_sum disjoint_sum_card[OF normalizeTrips_disjoint] normalizeTrips_covered)

subsection \<open>The scan of canStayForPeriod\<close>

lemma scanDays_None:
  "scanDays c s days i = None \<longleftrightarrow>
     (\<forall>j. i \<le> j \<and> j < days \<longrightarrow> calculateUsedDaysWithinWindow c (s + j) \<le> 90)"
proof (induction c s days i rule: scanDays.induct)
  case (1 c s days i)
  show ?case
  proof (cases "i < days")
    case False
    then show ?thesis by (simp add: scanDays.simps[of c s days i])
  next
    case True
    show ?thesis
    proof (cases "calculateUsedDaysWithinWindow c (s + i) > 90")
      case over: True
      have "scanDays c s days i \<noteq> None"
        using True over by (simp add: scanDays.simps[of c s days i] addDays_def Let_def)
      moreover have "\<not> (\<forall>j. i \<le> j \<and> j < days \<longrightarrow> calculateUsedDaysWithinWindow c (s + j) \<le> 90)"
        using True over by (intro notI) (drule spec[of _ i], simp)
      ultimately show ?thesis by blast
    next
      case under: False
      have step: "scanDays c s days i = scanDays c s days (i + 1)"
        using True under by (simp add: scanDays.simps[of c s days i] addDays_def Let_def)
      have ih: "scanDays c s days (i + 1) = None \<longleftrightarrow>
          (\<forall>j. i + 1 \<le> j \<and> j < days \<longrightarrow> calculateUsedDaysWithinWindow c (s + j) \<le> 90)"
        using "1.IH"[OF True refl refl] under by (simp add: addDays_def)
      have "(\<forall>j. i + 1 \<le> j \<and> j < days \<longrightarrow> calculateUsedDaysWithinWindow c (s + j) \<le> 90) \<longleftrightarrow>
            (\<forall>j. i \<le> j \<and> j < days \<longrightarrow> calculateUsedDaysWithinWindow c (s + j) \<le> 90)"
      proof
        assume a: "\<forall>j. i + 1 \<le> j \<and> j < days \<longrightarrow> calculateUsedDaysWithinWindow c (s + j) \<le> 90"
        show "\<forall>j. i \<le> j \<and> j < days \<longrightarrow> calculateUsedDaysWithinWindow c (s + j) \<le> 90"
        proof (intro allI impI)
          fix j assume j: "i \<le> j \<and> j < days"
          show "calculateUsedDaysWithinWindow c (s + j) \<le> 90"
          proof (cases "j = i")
            case True
            then show ?thesis using under by simp
          next
            case False
            then have "i + 1 \<le> j \<and> j < days" using j by simp
            then show ?thesis using a by blast
          qed
        qed
      next
        assume a: "\<forall>j. i \<le> j \<and> j < days \<longrightarrow> calculateUsedDaysWithinWindow c (s + j) \<le> 90"
        show "\<forall>j. i + 1 \<le> j \<and> j < days \<longrightarrow> calculateUsedDaysWithinWindow c (s + j) \<le> 90"
          using a by simp
      qed
      then show ?thesis using step ih by simp
    qed
  qed
qed

lemma scanDays_Some:
  "scanDays c s days i = Some (d, u) \<Longrightarrow>
     (\<exists>j. d = s + j \<and> i \<le> j \<and> j < days
          \<and> (\<forall>k. i \<le> k \<and> k < j \<longrightarrow> calculateUsedDaysWithinWindow c (s + k) \<le> 90))
     \<and> u = calculateUsedDaysWithinWindow c d \<and> 90 < u"
proof (induction c s days i rule: scanDays.induct)
  case (1 c s days i)
  have lt: "i < days"
    using "1.prems" by (cases "i < days") (simp_all add: scanDays.simps[of c s days i])
  show ?case
  proof (cases "calculateUsedDaysWithinWindow c (s + i) > 90")
    case True
    then have "d = s + i" "u = calculateUsedDaysWithinWindow c (s + i)"
      using "1.prems" lt by (auto simp: scanDays.simps[of c s days i] addDays_def Let_def)
    then show ?thesis
      using True lt by (intro conjI exI[of _ i]) simp_all
  next
    case False
    have step: "scanDays c s days (i + 1) = Some (d, u)"
      using "1.prems" lt False by (simp add: scanDays.simps[of c s days i] addDays_def Let_def)
    have ih: "(\<exists>j. d = s + j \<and> i + 1 \<le> j \<and> j < days
          \<and> (\<forall>k. i + 1 \<le> k \<and> k < j \<longrightarrow> calculateUsedDaysWithinWindow c (s + k) \<le> 90))
      \<and> u = calculateUsedDaysWithinWindow c d \<and> 90 < u"
      using "1.IH"[OF lt refl refl _ step] False by (simp add: addDays_def)
    then obtain j where j: "d = s + j" "i + 1 \<le> j" "j < days"
      "\<forall>k. i + 1 \<le> k \<and> k < j \<longrightarrow> calculateUsedDaysWithinWindow c (s + k) \<le> 90"
      by blast
    have "\<forall>k. i \<le> k \<and> k < j \<longrightarrow> calculateUsedDaysWithinWindow c (s + k) \<le> 90"
    proof (intro allI impI)
      fix k assume k: "i \<le> k \<and> k < j"
      show "calculateUsedDaysWithinWindow c (s + k) \<le> 90"
      proof (cases "k = i")
        case True
        then show ?thesis using False by simp
      next
        case ne: False
        then have "i + 1 \<le> k \<and> k < j" using k by simp
        then show ?thesis using j(4) by blast
      qed
    qed
    then show ?thesis
      using j ih by (intro conjI exI[of _ j]) simp_all
  qed
qed

lemma canStay_allowed:
  assumes "scanDays (normalizeTrips (ts @ [\<lparr>tripId = ''temp'', entryDate = E, exitDate = X\<rparr>])) E (X - E + 1) 0 = None"
  shows "canStayForPeriod ts E X =
     \<lparr>isAllowed = True, violationDate = None,
      usedOnExit = calculateUsedDaysWithinWindow
        (normalizeTrips (ts @ [\<lparr>tripId = ''temp'', entryDate = E, exitDate = X\<rparr>])) X\<rparr>"
  using assms by (simp add: canStayForPeriod_def Let_def differenceInCalendarDays_def)

lemma canStay_violation:
  assumes "scanDays (normalizeTrips (ts @ [\<lparr>tripId = ''temp'', entryDate = E, exitDate = X\<rparr>])) E (X - E + 1) 0 = Some (d, u)"
  shows "canStayForPeriod ts E X = \<lparr>isAllowed = False, violationDate = Some d, usedOnExit = u\<rparr>"
  using assms by (simp add: canStayForPeriod_def Let_def differenceInCalendarDays_def)

lemma isAllowed_scan:
  "isAllowed (canStayForPeriod ts E X) \<longleftrightarrow>
     scanDays (normalizeTrips (ts @ [\<lparr>tripId = ''temp'', entryDate = E, exitDate = X\<rparr>])) E (X - E + 1) 0 = None"
  by (auto simp: canStayForPeriod_def Let_def differenceInCalendarDays_def split: option.splits)

lemma isAllowed_usage:
  "isAllowed (canStayForPeriod ts E X) \<longleftrightarrow>
     (\<forall>d. E \<le> d \<and> d \<le> X \<longrightarrow>
        calculateUsedDaysWithinWindow
          (normalizeTrips (ts @ [\<lparr>tripId = ''temp'', entryDate = E, exitDate = X\<rparr>])) d \<le> 90)"
  (is "?L \<longleftrightarrow> (\<forall>d. E \<le> d \<and> d \<le> X \<longrightarrow> ?u d \<le> 90)")
proof -
  have "?L \<longleftrightarrow> (\<forall>j. 0 \<le> j \<and> j < X - E + 1 \<longrightarrow> ?u (E + j) \<le> 90)"
    by (simp only: isAllowed_scan scanDays_None)
  also have "\<dots> \<longleftrightarrow> (\<forall>d. E \<le> d \<and> d \<le> X \<longrightarrow> ?u d \<le> 90)"
  proof
    assume a: "\<forall>j. 0 \<le> j \<and> j < X - E + 1 \<longrightarrow> ?u (E + j) \<le> 90"
    show "\<forall>d. E \<le> d \<and> d \<le> X \<longrightarrow> ?u d \<le> 90"
    proof (intro allI impI)
      fix d assume "E \<le> d \<and> d \<le> X"
      then have "0 \<le> d - E \<and> d - E < X - E + 1" by simp
      then have "?u (E + (d - E)) \<le> 90" using a by blast
      then show "?u d \<le> 90" by simp
    qed
  next
    assume a: "\<forall>d. E \<le> d \<and> d \<le> X \<longrightarrow> ?u d \<le> 90"
    show "\<forall>j. 0 \<le> j \<and> j < X - E + 1 \<longrightarrow> ?u (E + j) \<le> 90"
    proof (intro allI impI)
      fix j assume "0 \<le> j \<and> j < X - E + 1"
      then have "E \<le> E + j \<and> E + j \<le> X" by simp
      then show "?u (E + j) \<le> 90" using a by blast
    qed
  qed
  finally show ?thesis .
qed

lemma coveredDays_append_temp:
  "coveredDays (ts @ [\<lparr>tripId = i, entryDate = E, exitDate = X\<rparr>]) = coveredDays ts \<union> {E..X}"
  by (auto simp: coveredDays_def tripDays_def)

lemma isAllowed_card:
  "isAllowed (canStayForPeriod ts E X) \<longleftrightarrow>
     (\<forall>d. E \<le> d \<and> d \<le> X \<longrightarrow>
        int (card ((coveredDays ts \<union> {E..X}) \<inter> referenceWindow d)) \<le> 90)"
  by (simp only: isAllowed_usage used_normalizeTrips coveredDays_append_temp)

lemma not_allowed_mono:
  assumes "X \<le> Y" and "\<not> isAllowed (canStayForPeriod ts E X)"
  shows "\<not> isAllowed (canStayForPeriod ts E Y)"
proof -
  obtain d where d: "E \<le> d" "d \<le> X"
    "\<not> int (card ((coveredDays ts \<union> {E..X}) \<inter> referenceWindow d)) \<le> 90"
    using assms(2) unfolding isAllowed_card by blast
  have "(coveredDays ts \<union> {E..X}) \<inter> referenceWindow d \<subseteq> (coveredDays ts \<union> {E..Y}) \<inter> referenceWindow d"
    using assms(1) by auto
  moreover have "finite ((coveredDays ts \<union> {E..Y}) \<inter> referenceWindow d)"
    by (simp add: finite_coveredDays)
  ultimately have "card ((coveredDays ts \<union> {E..X}) \<inter> referenceWindow d)
      \<le> card ((coveredDays ts \<union> {E..Y}) \<inter> referenceWindow d)"
    by (rule card_mono[rotated])
  then have "\<not> int (card ((coveredDays ts \<union> {E..Y}) \<inter> referenceWindow d)) \<le> 90"
    using d(3) by linarith
  moreover have "E \<le> d \<and> d \<le> Y"
    using d assms(1) by simp
  ultimately show ?thesis
    unfolding isAllowed_card by blast
qed

text \<open>
  C4. For a fixed trip history and a fixed entry date \<open>E\<close>, a stay that is refused stays
  refused when it is made longer: for every \<open>k \<ge> 0\<close> and every \<open>m \<ge> k\<close>, if
  \<open>canStayForPeriod\<close> does not allow the stay from \<open>E\<close> to \<open>E + k\<close>, it does not
  allow the stay from \<open>E\<close> to \<open>E + m\<close>.
\<close>

theorem checkStay_length_monotone:
  "0 \<le> k \<Longrightarrow> k \<le> m \<Longrightarrow> \<not> isAllowed (canStayForPeriod ts E (E + k)) \<Longrightarrow>
     \<not> isAllowed (canStayForPeriod ts E (E + m))"
  by (rule not_allowed_mono[of "E + k" "E + m"]) simp_all

theorem checkStay_length_monotone_witness:
  "(0::int) \<le> 90 \<and> (90::int) \<le> 95 \<and> \<not> isAllowed (canStayForPeriod [] 0 (0 + 90))
     \<and> \<not> isAllowed (canStayForPeriod [] 0 (0 + 95))"
proof -
  have a: "(0::int) \<le> 90" and b: "(90::int) \<le> 95" by simp_all
  have c: "\<not> isAllowed (canStayForPeriod [] 0 (0 + 90))" by code_simp
  show ?thesis using a b c checkStay_length_monotone[OF a b c] by simp
qed

text \<open>
  C2. For every trip list, entry \<open>E\<close> and exit \<open>X\<close> with \<open>E \<le> X\<close>, \<open>canStayForPeriod\<close>
  normalises the existing trips together with the candidate trip from \<open>E\<close> to \<open>X\<close> and
  looks at the days from \<open>E\<close> to \<open>X\<close> in ascending order. The first day whose usage
  (over the normalised combined list) exceeds 90 is returned as the violation date, with
  the stay not allowed. If no day from \<open>E\<close> to \<open>X\<close> has a usage above 90, the stay is
  allowed, there is no violation date, and \<open>usedOnExit\<close> is the usage of the combined
  list at \<open>X\<close>, which is at most 90.
\<close>

theorem checkStay_scan:
  assumes "E \<le> X"
  shows "let combined = normalizeTrips (ts @ [\<lparr>tripId = ''temp'', entryDate = E, exitDate = X\<rparr>]);
             usage = calculateUsedDaysWithinWindow combined;
             r = canStayForPeriod ts E X
         in (\<forall>d. E \<le> d \<and> d \<le> X \<and> 90 < usage d \<and> (\<forall>d'. E \<le> d' \<and> d' < d \<longrightarrow> usage d' \<le> 90)
                 \<longrightarrow> isAllowed r = False \<and> violationDate r = Some d)
          \<and> ((\<forall>d. E \<le> d \<and> d \<le> X \<longrightarrow> usage d \<le> 90)
                 \<longrightarrow> isAllowed r = True \<and> violationDate r = None
                     \<and> usedOnExit r = usage X \<and> usedOnExit r \<le> 90)"
proof -
  define combined where "combined = normalizeTrips (ts @ [\<lparr>tripId = ''temp'', entryDate = E, exitDate = X\<rparr>])"
  define usage where "usage = calculateUsedDaysWithinWindow combined"
  have viol: "isAllowed (canStayForPeriod ts E X) = False \<and> violationDate (canStayForPeriod ts E X) = Some d"
    if d: "E \<le> d" "d \<le> X" "90 < usage d" "\<forall>d'. E \<le> d' \<and> d' < d \<longrightarrow> usage d' \<le> 90" for d
  proof -
    have "\<not> isAllowed (canStayForPeriod ts E X)"
      using d(1,2,3) unfolding isAllowed_usage usage_def combined_def by force
    then obtain d0 u where sc: "scanDays combined E (X - E + 1) 0 = Some (d0, u)"
      unfolding isAllowed_scan combined_def by auto
    from scanDays_Some[OF sc] obtain j where j: "d0 = E + j" "0 \<le> j" "j < X - E + 1"
      "\<forall>k. 0 \<le> k \<and> k < j \<longrightarrow> usage (E + k) \<le> 90" and u: "90 < usage d0"
      unfolding usage_def by blast
    have "d0 = d"
    proof (rule ccontr)
      assume ne: "d0 \<noteq> d"
      show False
      proof (cases "d0 < d")
        case True
        then have "usage d0 \<le> 90" using d(4) j(1,2) by simp
        then show False using u by simp
      next
        case False
        then have "0 \<le> d - E \<and> d - E < j" using ne d(1) j(1) by simp
        then have "usage (E + (d - E)) \<le> 90" using j(4) by blast
        then show False using d(3) by simp
      qed
    qed
    then show ?thesis
      using canStay_violation[of ts E X d0 u] sc unfolding combined_def by simp
  qed
  have ok: "isAllowed (canStayForPeriod ts E X) = True \<and> violationDate (canStayForPeriod ts E X) = None
      \<and> usedOnExit (canStayForPeriod ts E X) = usage X \<and> usedOnExit (canStayForPeriod ts E X) \<le> 90"
    if a: "\<forall>d. E \<le> d \<and> d \<le> X \<longrightarrow> usage d \<le> 90"
  proof -
    have "isAllowed (canStayForPeriod ts E X)"
      using a unfolding isAllowed_usage usage_def combined_def by blast
    then have "scanDays combined E (X - E + 1) 0 = None"
      unfolding isAllowed_scan combined_def .
    then have "canStayForPeriod ts E X = \<lparr>isAllowed = True, violationDate = None, usedOnExit = usage X\<rparr>"
      using canStay_allowed[of ts E X] unfolding combined_def usage_def by simp
    moreover have "usage X \<le> 90"
      using a assms by simp
    ultimately show ?thesis by simp
  qed
  show ?thesis
    unfolding Let_def combined_def[symmetric] usage_def[symmetric]
    using viol ok by blast
qed

theorem checkStay_scan_witness:
  "(0::int) \<le> 0
   \<and> isAllowed (canStayForPeriod [] 0 0) \<and> violationDate (canStayForPeriod [] 0 0) = None
   \<and> usedOnExit (canStayForPeriod [] 0 0) = 1
   \<and> (91::int) \<le> 91
   \<and> \<not> isAllowed (canStayForPeriod [\<lparr>tripId = ''a'', entryDate = 1, exitDate = 90\<rparr>] 91 91)
   \<and> violationDate (canStayForPeriod [\<lparr>tripId = ''a'', entryDate = 1, exitDate = 90\<rparr>] 91 91) = Some 91"
proof -
  have h0: "(0::int) \<le> 0" and h1: "(91::int) \<le> 91" by simp_all
  note ok = checkStay_scan[OF h0, of "[]", unfolded Let_def, THEN conjunct2]
  note bad = checkStay_scan[OF h1, of "[\<lparr>tripId = ''a'', entryDate = 1, exitDate = 90\<rparr>]",
      unfolded Let_def, THEN conjunct1, THEN spec, of 91]
  have u0: "calculateUsedDaysWithinWindow
      (normalizeTrips ([] @ [\<lparr>tripId = ''temp'', entryDate = 0, exitDate = 0\<rparr>])) 0 = 1"
    by code_simp
  have "\<forall>d. (0::int) \<le> d \<and> d \<le> 0 \<longrightarrow> calculateUsedDaysWithinWindow
      (normalizeTrips ([] @ [\<lparr>tripId = ''temp'', entryDate = 0, exitDate = 0\<rparr>])) d \<le> 90"
  proof (intro allI impI)
    fix d :: int assume "0 \<le> d \<and> d \<le> 0"
    then have "d = 0" by simp
    then show "calculateUsedDaysWithinWindow
      (normalizeTrips ([] @ [\<lparr>tripId = ''temp'', entryDate = 0, exitDate = 0\<rparr>])) d \<le> 90"
      using u0 by simp
  qed
  from ok[THEN mp, OF this] u0
  have a: "isAllowed (canStayForPeriod [] 0 0) \<and> violationDate (canStayForPeriod [] 0 0) = None
     \<and> usedOnExit (canStayForPeriod [] 0 0) = 1"
    by simp
  have u91: "90 < calculateUsedDaysWithinWindow
      (normalizeTrips ([\<lparr>tripId = ''a'', entryDate = 1, exitDate = 90\<rparr>]
         @ [\<lparr>tripId = ''temp'', entryDate = 91, exitDate = 91\<rparr>])) 91"
    by code_simp
  have b: "\<not> isAllowed (canStayForPeriod [\<lparr>tripId = ''a'', entryDate = 1, exitDate = 90\<rparr>] 91 91)
     \<and> violationDate (canStayForPeriod [\<lparr>tripId = ''a'', entryDate = 1, exitDate = 90\<rparr>] 91 91) = Some 91"
    using bad u91 by simp
  show ?thesis using a b by simp
qed

text \<open>
  C9. When \<open>canStayForPeriod\<close> reports a violation, \<open>usedOnExit\<close> is the usage found on
  the violation day itself, the first day from \<open>E\<close> on whose usage exceeds 90, and so is
  greater than 90. It is not the usage at the candidate exit: with no history, entry 0
  and exit 100 the field holds 91, the usage on day 90, while the usage at the exit is 101.
\<close>

theorem checkStay_violation_usage:
  "(\<not> isAllowed (canStayForPeriod ts E X) \<longrightarrow>
      (\<exists>d. violationDate (canStayForPeriod ts E X) = Some d \<and> E \<le> d \<and> d \<le> X
         \<and> usedOnExit (canStayForPeriod ts E X) =
             calculateUsedDaysWithinWindow
               (normalizeTrips (ts @ [\<lparr>tripId = ''temp'', entryDate = E, exitDate = X\<rparr>])) d
         \<and> 90 < usedOnExit (canStayForPeriod ts E X)
         \<and> (\<forall>d'. E \<le> d' \<and> d' < d \<longrightarrow>
               calculateUsedDaysWithinWindow
                 (normalizeTrips (ts @ [\<lparr>tripId = ''temp'', entryDate = E, exitDate = X\<rparr>])) d' \<le> 90)))
   \<and> usedOnExit (canStayForPeriod [] 0 100) = 91
   \<and> calculateUsedDaysWithinWindow
        (normalizeTrips ([] @ [\<lparr>tripId = ''temp'', entryDate = 0, exitDate = 100\<rparr>])) 100 = 101"
proof (intro conjI impI)
  define combined where "combined = normalizeTrips (ts @ [\<lparr>tripId = ''temp'', entryDate = E, exitDate = X\<rparr>])"
  assume "\<not> isAllowed (canStayForPeriod ts E X)"
  then obtain d u where sc: "scanDays combined E (X - E + 1) 0 = Some (d, u)"
    unfolding isAllowed_scan combined_def by auto
  from scanDays_Some[OF sc] obtain j where j: "d = E + j" "0 \<le> j" "j < X - E + 1"
      "\<forall>k. 0 \<le> k \<and> k < j \<longrightarrow> calculateUsedDaysWithinWindow combined (E + k) \<le> 90"
    and u: "u = calculateUsedDaysWithinWindow combined d" "90 < u"
    by blast
  have r: "canStayForPeriod ts E X = \<lparr>isAllowed = False, violationDate = Some d, usedOnExit = u\<rparr>"
    using canStay_violation[of ts E X d u] sc unfolding combined_def by simp
  have before: "\<forall>d'. E \<le> d' \<and> d' < d \<longrightarrow> calculateUsedDaysWithinWindow combined d' \<le> 90"
  proof (intro allI impI)
    fix d' assume "E \<le> d' \<and> d' < d"
    then have "0 \<le> d' - E \<and> d' - E < j" using j(1) by simp
    then have "calculateUsedDaysWithinWindow combined (E + (d' - E)) \<le> 90" using j(4) by blast
    then show "calculateUsedDaysWithinWindow combined d' \<le> 90" by simp
  qed
  show "\<exists>d. violationDate (canStayForPeriod ts E X) = Some d \<and> E \<le> d \<and> d \<le> X
         \<and> usedOnExit (canStayForPeriod ts E X) =
             calculateUsedDaysWithinWindow
               (normalizeTrips (ts @ [\<lparr>tripId = ''temp'', entryDate = E, exitDate = X\<rparr>])) d
         \<and> 90 < usedOnExit (canStayForPeriod ts E X)
         \<and> (\<forall>d'. E \<le> d' \<and> d' < d \<longrightarrow>
               calculateUsedDaysWithinWindow
                 (normalizeTrips (ts @ [\<lparr>tripId = ''temp'', entryDate = E, exitDate = X\<rparr>])) d' \<le> 90)"
    unfolding combined_def[symmetric]
    using r j(1,2,3) u before by (intro exI[of _ d]) simp
next
  show "usedOnExit (canStayForPeriod [] 0 100) = 91" by code_simp
next
  show "calculateUsedDaysWithinWindow
        (normalizeTrips ([] @ [\<lparr>tripId = ''temp'', entryDate = 0, exitDate = 100\<rparr>])) 100 = 101"
    by code_simp
qed

theorem checkStay_violation_usage_witness:
  "\<not> isAllowed (canStayForPeriod [] 0 100)
   \<and> (\<exists>d. violationDate (canStayForPeriod [] 0 100) = Some d \<and> 0 \<le> d \<and> d \<le> 100
         \<and> 90 < usedOnExit (canStayForPeriod [] 0 100))"
proof -
  have h: "\<not> isAllowed (canStayForPeriod [] 0 100)" by code_simp
  from checkStay_violation_usage[of "[]" 0 100, THEN conjunct1, rule_format, OF h] h
  show ?thesis by blast
qed

subsection \<open>The search of getMaxSafeStayFromDate\<close>

lemma safeLoop_step:
  "safeLoop ts E i s =
     (if i \<le> 90 then
        (if \<not> isAllowed (canStayForPeriod ts E (E + (i - 1))) then s
         else safeLoop ts E (i + 1) i)
      else s)"
  by (subst safeLoop.simps) (simp add: Let_def addDays_def)

lemma safeLoop_spec:
  "1 \<le> i \<Longrightarrow> i \<le> 91 \<Longrightarrow> s = i - 1 \<Longrightarrow>
     i - 1 \<le> safeLoop ts E i s \<and> safeLoop ts E i s \<le> 90
     \<and> (i \<le> safeLoop ts E i s \<longrightarrow> isAllowed (canStayForPeriod ts E (E + safeLoop ts E i s - 1)))
     \<and> (safeLoop ts E i s < 90 \<longrightarrow> \<not> isAllowed (canStayForPeriod ts E (E + safeLoop ts E i s)))"
proof (induction ts E i s rule: safeLoop.induct)
  case (1 ts E i s)
  show ?case
  proof (cases "i \<le> 90")
    case False
    then have "i = 91"
      using "1.prems" by simp
    then have "safeLoop ts E i s = 90"
      using "1.prems" by (subst safeLoop_step) simp
    then show ?thesis using \<open>i = 91\<close> by simp
  next
    case True
    show ?thesis
    proof (cases "isAllowed (canStayForPeriod ts E (E + (i - 1)))")
      case False
      have L: "safeLoop ts E i s = i - 1"
        using False True "1.prems" by (subst safeLoop_step) simp
      have "\<not> isAllowed (canStayForPeriod ts E (E + safeLoop ts E i s))"
        using False unfolding L .
      moreover have "\<not> i \<le> safeLoop ts E i s" "i - 1 \<le> safeLoop ts E i s" "safeLoop ts E i s \<le> 90"
        using True unfolding L by simp_all
      ultimately show ?thesis by blast
    next
      case allowed: True
      have step: "safeLoop ts E i s = safeLoop ts E (i + 1) i"
        using True allowed by (subst safeLoop_step) simp
      have ih: "i \<le> safeLoop ts E (i + 1) i \<and> safeLoop ts E (i + 1) i \<le> 90
        \<and> (i + 1 \<le> safeLoop ts E (i + 1) i \<longrightarrow>
              isAllowed (canStayForPeriod ts E (E + safeLoop ts E (i + 1) i - 1)))
        \<and> (safeLoop ts E (i + 1) i < 90 \<longrightarrow>
              \<not> isAllowed (canStayForPeriod ts E (E + safeLoop ts E (i + 1) i)))"
        using "1.IH"[OF True refl refl] allowed True "1.prems" by (simp add: addDays_def)
      have "isAllowed (canStayForPeriod ts E (E + safeLoop ts E (i + 1) i - 1))"
      proof (cases "safeLoop ts E (i + 1) i = i")
        case True
        have "E + safeLoop ts E (i + 1) i - 1 = E + (i - 1)"
          unfolding True by simp
        then show ?thesis using allowed by (simp only:)
      next
        case False
        then have "i + 1 \<le> safeLoop ts E (i + 1) i" using ih by simp
        then show ?thesis using ih by blast
      qed
      then show ?thesis using ih step by simp
    qed
  qed
qed

text \<open>
  C5. For every trip list and entry date \<open>E\<close>, the length \<open>L\<close> that
  \<open>getMaxSafeStayFromDate\<close> returns as \<open>maxDays\<close> lies between 0 and 90; either \<open>L = 0\<close>
  or the stay from \<open>E\<close> to \<open>E + L - 1\<close> is allowed; and if \<open>L < 90\<close> the stay from \<open>E\<close>
  to \<open>E + L\<close> is not allowed.
\<close>

theorem maxSafeStay_boundary:
  "let L = maxDays (getMaxSafeStayFromDate ts E)
   in 0 \<le> L \<and> L \<le> 90
    \<and> (L = 0 \<or> isAllowed (canStayForPeriod ts E (E + L - 1)))
    \<and> (L < 90 \<longrightarrow> \<not> isAllowed (canStayForPeriod ts E (E + L)))"
proof -
  have L: "maxDays (getMaxSafeStayFromDate ts E) = safeLoop ts E 1 0"
    by (simp add: getMaxSafeStayFromDate_def Let_def)
  have "(1::int) \<le> 1" "(1::int) \<le> 91" "(0::int) = 1 - 1" by simp_all
  from safeLoop_spec[OF this, of ts E]
  show ?thesis unfolding Let_def L by auto
qed

theorem maxSafeStay_boundary_witness:
  "maxDays (getMaxSafeStayFromDate [\<lparr>tripId = ''a'', entryDate = 1, exitDate = 80\<rparr>] 81) = 10
   \<and> (10::int) < 90
   \<and> isAllowed (canStayForPeriod [\<lparr>tripId = ''a'', entryDate = 1, exitDate = 80\<rparr>] 81 90)
   \<and> \<not> isAllowed (canStayForPeriod [\<lparr>tripId = ''a'', entryDate = 1, exitDate = 80\<rparr>] 81 91)"
proof -
  have L: "maxDays (getMaxSafeStayFromDate [\<lparr>tripId = ''a'', entryDate = 1, exitDate = 80\<rparr>] 81) = 10"
    by code_simp
  from maxSafeStay_boundary[of "[\<lparr>tripId = ''a'', entryDate = 1, exitDate = 80\<rparr>]" 81, unfolded Let_def L]
  show ?thesis using L by simp
qed

text \<open>
  C10. When \<open>getMaxSafeStayFromDate\<close> returns \<open>maxDays = 0\<close>, its \<open>untilDate\<close> is the day
  before the requested entry date, \<open>E - 1\<close>.
\<close>

theorem maxSafeStay_zero_until:
  "maxDays (getMaxSafeStayFromDate ts E) = 0 \<Longrightarrow> untilDate (getMaxSafeStayFromDate ts E) = E - 1"
  by (simp add: getMaxSafeStayFromDate_def Let_def addDays_def)

theorem maxSafeStay_zero_until_witness:
  "maxDays (getMaxSafeStayFromDate [\<lparr>tripId = ''a'', entryDate = 1, exitDate = 90\<rparr>] 91) = 0
   \<and> untilDate (getMaxSafeStayFromDate [\<lparr>tripId = ''a'', entryDate = 1, exitDate = 90\<rparr>] 91) = 91 - 1"
proof -
  have h: "maxDays (getMaxSafeStayFromDate [\<lparr>tripId = ''a'', entryDate = 1, exitDate = 90\<rparr>] 91) = 0"
    by code_simp
  from maxSafeStay_zero_until[OF h] h show ?thesis by simp
qed

subsection \<open>The normalised form\<close>

lemma normalizeTrips_pair_sorted:
  "entryDate a \<le> entryDate b \<Longrightarrow> sort_key entryDate [a, b] = [a, b]"
  by simp

lemma normalizeTrips_pair_swapped:
  "entryDate a < entryDate b \<Longrightarrow> sort_key entryDate [b, a] = [a, b]"
  by simp

lemma normalizeTrips_adjacent_pair:
  assumes "entryDate a \<le> exitDate a" "entryDate b = exitDate a + 1" "entryDate b \<le> exitDate b"
  shows "normalizeTrips [a, b] = [a\<lparr>exitDate := exitDate b\<rparr>]"
    and "normalizeTrips [b, a] = [a\<lparr>exitDate := exitDate b\<rparr>]"
proof -
  have m: "max (exitDate a) (exitDate b) = exitDate b"
    using assms by simp
  have le: "entryDate a \<le> entryDate b" and lt: "entryDate a < entryDate b"
    using assms by simp_all
  show "normalizeTrips [a, b] = [a\<lparr>exitDate := exitDate b\<rparr>]"
    using assms(2) by (simp add: normalizeTrips_eq normalizeTrips_pair_sorted[OF le] mergeLoop_Cons m del: sort_key_simps)
  show "normalizeTrips [b, a] = [a\<lparr>exitDate := exitDate b\<rparr>]"
    using assms(2) by (simp add: normalizeTrips_eq normalizeTrips_pair_swapped[OF lt] mergeLoop_Cons m del: sort_key_simps)
qed

lemma normalizeTrips_separate_pair:
  assumes "entryDate a \<le> exitDate a" "exitDate a + 2 \<le> entryDate b"
  shows "normalizeTrips [a, b] = [a, b]" and "normalizeTrips [b, a] = [a, b]"
proof -
  have le: "entryDate a \<le> entryDate b" and lt: "entryDate a < entryDate b"
    using assms by simp_all
  have no: "\<not> entryDate b \<le> exitDate a + 1"
    using assms by simp
  show "normalizeTrips [a, b] = [a, b]"
    using no by (simp add: normalizeTrips_eq normalizeTrips_pair_sorted[OF le] mergeLoop_Cons del: sort_key_simps)
  show "normalizeTrips [b, a] = [a, b]"
    using no by (simp add: normalizeTrips_eq normalizeTrips_pair_swapped[OF lt] mergeLoop_Cons del: sort_key_simps)
qed

text \<open>
  C3. For every input list, unsorted and overlapping ones included, the output of
  \<open>normalizeTrips\<close> is sorted ascending by entry date, no two of its trips share a day,
  every trip starts at least two days after the exit of the one before it (so no two
  consecutive trips touch), and it covers exactly the calendar days that the input
  covers. Two trips where one ends the day before the other starts are merged into one,
  in either input order; two trips with one or more free days between them are kept
  apart.
\<close>

theorem normalize_invariant:
  "sorted (map entryDate (normalizeTrips ts))
   \<and> sorted_wrt (\<lambda>a b. tripDays a \<inter> tripDays b = {}) (normalizeTrips ts)
   \<and> successively (\<lambda>a b. exitDate a + 2 \<le> entryDate b) (normalizeTrips ts)
   \<and> coveredDays (normalizeTrips ts) = coveredDays ts
   \<and> (\<forall>a b. entryDate a \<le> exitDate a \<and> entryDate b = exitDate a + 1 \<and> entryDate b \<le> exitDate b
         \<longrightarrow> normalizeTrips [a, b] = [a\<lparr>exitDate := exitDate b\<rparr>]
           \<and> normalizeTrips [b, a] = [a\<lparr>exitDate := exitDate b\<rparr>])
   \<and> (\<forall>a b. entryDate a \<le> exitDate a \<and> exitDate a + 2 \<le> entryDate b
         \<longrightarrow> normalizeTrips [a, b] = [a, b] \<and> normalizeTrips [b, a] = [a, b])"
  using normalizeTrips_sorted[of ts] normalizeTrips_disjoint[of ts] normalizeTrips_gaps[of ts]
    normalizeTrips_covered[of ts] normalizeTrips_adjacent_pair normalizeTrips_separate_pair
  by blast

theorem normalize_invariant_witness:
  "normalizeTrips [\<lparr>tripId = ''a'', entryDate = 1, exitDate = 5\<rparr>, \<lparr>tripId = ''b'', entryDate = 6, exitDate = 10\<rparr>]
     = [\<lparr>tripId = ''a'', entryDate = 1, exitDate = 10\<rparr>]
   \<and> normalizeTrips [\<lparr>tripId = ''a'', entryDate = 1, exitDate = 5\<rparr>, \<lparr>tripId = ''c'', entryDate = 7, exitDate = 10\<rparr>]
     = [\<lparr>tripId = ''a'', entryDate = 1, exitDate = 5\<rparr>, \<lparr>tripId = ''c'', entryDate = 7, exitDate = 10\<rparr>]"
proof -
  let ?a = "\<lparr>tripId = ''a'', entryDate = 1, exitDate = 5\<rparr>"
  let ?b = "\<lparr>tripId = ''b'', entryDate = 6, exitDate = 10\<rparr>"
  let ?c = "\<lparr>tripId = ''c'', entryDate = 7, exitDate = 10\<rparr>"
  note T = normalize_invariant[of "[]"]
  note adj = T[THEN conjunct2, THEN conjunct2, THEN conjunct2, THEN conjunct2, THEN conjunct1,
      THEN spec, THEN spec, THEN mp, of ?a ?b]
  note sep = T[THEN conjunct2, THEN conjunct2, THEN conjunct2, THEN conjunct2, THEN conjunct2,
      THEN spec, THEN spec, THEN mp, of ?a ?c]
  have "entryDate ?a \<le> exitDate ?a \<and> entryDate ?b = exitDate ?a + 1 \<and> entryDate ?b \<le> exitDate ?b"
    by simp
  from adj[OF this] have 1: "normalizeTrips [?a, ?b] = [\<lparr>tripId = ''a'', entryDate = 1, exitDate = 10\<rparr>]"
    by simp
  have "entryDate ?a \<le> exitDate ?a \<and> exitDate ?a + 2 \<le> entryDate ?c"
    by simp
  from sep[OF this] have 2: "normalizeTrips [?a, ?c] = [?a, ?c]"
    by simp
  show ?thesis using 1 2 by simp
qed

subsection \<open>Bounds of the usage\<close>

lemma used_nonneg: "0 \<le> calculateUsedDaysWithinWindow ts D"
  unfolding used_sum by (rule sum_list_nonneg) auto

lemma card_window: "card (referenceWindow D) = 180"
  by (simp add: referenceWindow_def)

lemma card_in_window: "int (card (A \<inter> referenceWindow D)) \<le> 180"
proof -
  have "card (A \<inter> referenceWindow D) \<le> card (referenceWindow D)"
    by (rule card_mono) (simp_all add: referenceWindow_def)
  then show ?thesis by (simp add: card_window)
qed

lemma used_disjoint:
  "sorted_wrt (\<lambda>a b. tripDays a \<inter> tripDays b = {}) ts \<Longrightarrow>
     calculateUsedDaysWithinWindow ts D = int (card (coveredDays ts \<inter> referenceWindow D))"
  by (simp only: used_sum disjoint_sum_card)

text \<open>
  C7, as the code has it. \<open>calculateUsedDaysWithinWindow\<close> is never negative. It is at
  most 180 when no two trips of the list share a calendar day, and so for every output
  of \<open>normalizeTrips\<close>, whatever the input was. The function does not merge: a list with
  overlapping trips counts the shared days once per trip.
\<close>

theorem usedDays_bounds:
  "0 \<le> calculateUsedDaysWithinWindow ts D
   \<and> (sorted_wrt (\<lambda>a b. tripDays a \<inter> tripDays b = {}) ts
        \<longrightarrow> calculateUsedDaysWithinWindow ts D \<le> 180)
   \<and> calculateUsedDaysWithinWindow (normalizeTrips ts) D \<le> 180"
  using used_nonneg[of ts D] used_disjoint[of ts D] card_in_window[of "coveredDays ts" D]
    used_normalizeTrips[of ts D]
  by simp

theorem usedDays_bounds_witness:
  "sorted_wrt (\<lambda>a b. tripDays a \<inter> tripDays b = {})
      [\<lparr>tripId = ''a'', entryDate = 1, exitDate = 10\<rparr>, \<lparr>tripId = ''b'', entryDate = 20, exitDate = 30\<rparr>]
   \<and> calculateUsedDaysWithinWindow
      [\<lparr>tripId = ''a'', entryDate = 1, exitDate = 10\<rparr>, \<lparr>tripId = ''b'', entryDate = 20, exitDate = 30\<rparr>] 30 \<le> 180"
proof -
  have h: "sorted_wrt (\<lambda>a b. tripDays a \<inter> tripDays b = {})
      [\<lparr>tripId = ''a'', entryDate = 1, exitDate = 10\<rparr>, \<lparr>tripId = ''b'', entryDate = 20, exitDate = 30\<rparr>]"
    by (simp add: tripDays_def)
  from usedDays_bounds[THEN conjunct2, THEN conjunct1, THEN mp, OF h] h
  show ?thesis by simp
qed

text \<open>
  Two stored trips over the same 180 days, each with its entry before its exit, are
  counted twice: the usage at day 180 is 360.
\<close>

theorem usedDays_bounds_counterexample:
  "entryDate \<lparr>tripId = ''a'', entryDate = 1, exitDate = 180\<rparr> \<le> exitDate \<lparr>tripId = ''a'', entryDate = 1, exitDate = 180\<rparr>
   \<and> entryDate \<lparr>tripId = ''b'', entryDate = 1, exitDate = 180\<rparr> \<le> exitDate \<lparr>tripId = ''b'', entryDate = 1, exitDate = 180\<rparr>
   \<and> calculateUsedDaysWithinWindow
       [\<lparr>tripId = ''a'', entryDate = 1, exitDate = 180\<rparr>, \<lparr>tripId = ''b'', entryDate = 1, exitDate = 180\<rparr>] 180 = 360
   \<and> \<not> (calculateUsedDaysWithinWindow
       [\<lparr>tripId = ''a'', entryDate = 1, exitDate = 180\<rparr>, \<lparr>tripId = ''b'', entryDate = 1, exitDate = 180\<rparr>] 180 \<le> 180)"
  by (simp add: calculateUsedDaysWithinWindow_def date_defs)

subsection \<open>Facts about the date set\<close>

lemma set_setAdd: "set (setAdd d ds) = insert d (set ds)"
  by (auto simp: setAdd_def)

lemma distinct_setAdd: "distinct ds \<Longrightarrow> distinct (setAdd d ds)"
  by (simp add: setAdd_def)

lemma set_setDelete: "set (setDelete d ds) = set ds - {d}"
  by (auto simp: setDelete_def)

lemma distinct_setDelete: "distinct ds \<Longrightarrow> distinct (setDelete d ds)"
  by (simp add: setDelete_def distinct_removeAll)

lemma addTripDays_step:
  "addTripDays start days i ds =
     (if i \<le> days then addTripDays start days (i + 1) (setAdd (start + i) ds) else ds)"
  by (subst addTripDays.simps) (simp add: addDays_def)


lemma distinct_addTripDays:
  "distinct ds \<Longrightarrow> distinct (addTripDays start days i ds)"
proof (induction start days i ds rule: addTripDays.induct)
  case (1 start days i ds)
  show ?case
  proof (cases "i \<le> days")
    case True
    have "distinct (addTripDays start days (i + 1) (setAdd (start + i) ds))"
      using "1.IH"[OF True] distinct_setAdd[OF "1.prems"] by (simp add: addDays_def)
    then show ?thesis
      using True by (subst addTripDays_step) simp
  next
    case False
    then show ?thesis using "1.prems" by (subst addTripDays_step) simp
  qed
qed


lemma distinct_tripsToDateSet:
  "distinct ds \<Longrightarrow> distinct (tripsToDateSet ts ds)"
  by (induction ts arbitrary: ds) (simp_all add: distinct_addTripDays Let_def)

lemma set_fold_setAdd: "set (fold setAdd xs ds) = set ds \<union> set xs"
  by (induction xs arbitrary: ds) (auto simp: set_setAdd)

lemma distinct_fold_setAdd: "distinct ds \<Longrightarrow> distinct (fold setAdd xs ds)"
  by (induction xs arbitrary: ds) (simp_all add: distinct_setAdd)

subsection \<open>Run-length encoding\<close>

lemma rleLoop_acc:
  "rleLoop uuid acc a b xs = acc @ rleLoop (\<lambda>k. uuid (length acc + k)) [] a b xs"
proof (induction xs arbitrary: acc a b uuid)
  case Nil
  show ?case by simp
next
  case (Cons x xs)
  show ?case
  proof (cases "x - b = 1")
    case True
    then show ?thesis
      using Cons.IH[of uuid acc a x] by (simp add: differenceInCalendarDays_def)
  next
    case False
    have l: "rleLoop uuid (acc @ [\<lparr>tripId = uuid (length acc), entryDate = a, exitDate = b\<rparr>]) x x xs
        = (acc @ [\<lparr>tripId = uuid (length acc), entryDate = a, exitDate = b\<rparr>])
          @ rleLoop (\<lambda>k. uuid (length acc + 1 + k)) [] x x xs"
      using Cons.IH[of uuid "acc @ [\<lparr>tripId = uuid (length acc), entryDate = a, exitDate = b\<rparr>]" x x]
      by simp
    have r: "rleLoop (\<lambda>k. uuid (length acc + k)) [\<lparr>tripId = uuid (length acc), entryDate = a, exitDate = b\<rparr>] x x xs
        = [\<lparr>tripId = uuid (length acc), entryDate = a, exitDate = b\<rparr>]
          @ rleLoop (\<lambda>k. uuid (length acc + 1 + k)) [] x x xs"
      using Cons.IH[of "\<lambda>k. uuid (length acc + k)" "[\<lparr>tripId = uuid (length acc), entryDate = a, exitDate = b\<rparr>]" x x]
      by (simp add: add.assoc)
    show ?thesis
      using False l r by (simp add: differenceInCalendarDays_def)
  qed
qed

lemma rleLoop_Nil:
  "rleLoop uuid [] a b [] = [\<lparr>tripId = uuid 0, entryDate = a, exitDate = b\<rparr>]"
  by simp

lemma rleLoop_Cons:
  "rleLoop uuid [] a b (x # xs) =
     (if x - b = 1 then rleLoop uuid [] a x xs
      else \<lparr>tripId = uuid 0, entryDate = a, exitDate = b\<rparr> # rleLoop (\<lambda>k. uuid (Suc k)) [] x x xs)"
  using rleLoop_acc[of uuid "[\<lparr>tripId = uuid 0, entryDate = a, exitDate = b\<rparr>]" x x xs]
  by (simp add: differenceInCalendarDays_def)

declare rleLoop.simps [simp del]

lemma rleLoop_hd:
  "rleLoop uuid [] a b xs \<noteq> [] \<and> entryDate (hd (rleLoop uuid [] a b xs)) = a"
  by (induction xs arbitrary: a b uuid) (simp_all add: rleLoop_Nil rleLoop_Cons)

lemma rleLoop_entries:
  "entryDate ` set (rleLoop uuid [] a b xs) \<subseteq> insert a (set xs)"
proof (induction xs arbitrary: a b uuid)
  case Nil
  show ?case by (simp add: rleLoop_Nil)
next
  case (Cons x xs)
  show ?case
  proof (cases "x - b = 1")
    case True
    have "entryDate ` set (rleLoop uuid [] a x xs) \<subseteq> insert a (set xs)"
      by (rule Cons.IH)
    then show ?thesis using True by (auto simp: rleLoop_Cons)
  next
    case False
    have "entryDate ` set (rleLoop (\<lambda>k. uuid (Suc k)) [] x x xs) \<subseteq> insert x (set xs)"
      by (rule Cons.IH)
    then show ?thesis using False by (auto simp: rleLoop_Cons)
  qed
qed

lemma rleLoop_valid:
  "a \<le> b \<Longrightarrow> \<forall>t \<in> set (rleLoop uuid [] a b xs). entryDate t \<le> exitDate t"
proof (induction xs arbitrary: a b uuid)
  case Nil
  then show ?case by (simp add: rleLoop_Nil)
next
  case (Cons x xs)
  show ?case
  proof (cases "x - b = 1")
    case True
    then have "a \<le> x" using Cons.prems by simp
    then have "\<forall>t \<in> set (rleLoop uuid [] a x xs). entryDate t \<le> exitDate t"
      by (rule Cons.IH)
    then show ?thesis using True by (simp add: rleLoop_Cons)
  next
    case False
    have "\<forall>t \<in> set (rleLoop (\<lambda>k. uuid (Suc k)) [] x x xs). entryDate t \<le> exitDate t"
      by (rule Cons.IH) simp
    then show ?thesis using False Cons.prems by (simp add: rleLoop_Cons)
  qed
qed

lemma rleLoop_strong:
  "sorted_wrt (<) (b # xs) \<Longrightarrow>
     sorted_wrt (\<lambda>s t. exitDate s + 2 \<le> entryDate t) (rleLoop uuid [] a b xs)"
proof (induction xs arbitrary: a b uuid)
  case Nil
  show ?case by (simp add: rleLoop_Nil)
next
  case (Cons x xs)
  have sx: "sorted_wrt (<) (x # xs)"
    using Cons.prems by simp
  show ?case
  proof (cases "x - b = 1")
    case True
    then show ?thesis using Cons.IH[OF sx] by (simp add: rleLoop_Cons)
  next
    case False
    have "b < x" using Cons.prems by simp
    then have bx: "b + 2 \<le> x" using False by simp
    have "\<forall>e \<in> entryDate ` set (rleLoop (\<lambda>k. uuid (Suc k)) [] x x xs). x \<le> e"
      using rleLoop_entries[of "\<lambda>k. uuid (Suc k)" x x xs] sx by fastforce
    then have "\<forall>t \<in> set (rleLoop (\<lambda>k. uuid (Suc k)) [] x x xs). b + 2 \<le> entryDate t"
      using bx by fastforce
    then show ?thesis
      using False Cons.IH[OF sx, of "\<lambda>k. uuid (Suc k)" x] by (simp add: rleLoop_Cons)
  qed
qed

lemma rleLoop_covered:
  "sorted_wrt (<) (b # xs) \<Longrightarrow> a \<le> b \<Longrightarrow>
     coveredDays (rleLoop uuid [] a b xs) = {a..b} \<union> set xs"
proof (induction xs arbitrary: a b uuid)
  case Nil
  show ?case by (simp add: rleLoop_Nil coveredDays_Cons coveredDays_Nil tripDays_def)
next
  case (Cons x xs)
  have sx: "sorted_wrt (<) (x # xs)"
    using Cons.prems by simp
  show ?case
  proof (cases "x - b = 1")
    case True
    then have ax: "a \<le> x" using Cons.prems by simp
    have "{a..x} = insert x {a..b}"
      using True Cons.prems(2) by auto
    then show ?thesis
      using True Cons.IH[OF sx ax] by (simp add: rleLoop_Cons)
  next
    case False
    have "coveredDays (rleLoop (\<lambda>k. uuid (Suc k)) [] x x xs) = {x..x} \<union> set xs"
      by (rule Cons.IH[OF sx]) simp
    then show ?thesis
      using False by (simp add: rleLoop_Cons coveredDays_Cons tripDays_def)
  qed
qed

subsection \<open>Normalised interval sets\<close>

lemma strong_normalized:
  assumes v: "\<forall>t \<in> set ts. entryDate t \<le> exitDate t"
    and s: "sorted_wrt (\<lambda>a b. exitDate a + 2 \<le> entryDate b) ts"
  shows "normalizedIntervalSet ts"
proof -
  have "sorted_wrt (\<lambda>a b. entryDate a \<le> entryDate b) ts"
  proof (rule sorted_wrt_mono_rel[OF _ s])
    fix a b assume "a \<in> set ts" "b \<in> set ts" "exitDate a + 2 \<le> entryDate b"
    then show "entryDate a \<le> entryDate b" using v by fastforce
  qed
  then have 1: "sorted (map entryDate ts)"
    by (simp add: sorted_wrt_map)
  have 2: "sorted_wrt (\<lambda>a b. tripDays a \<inter> tripDays b = {}) ts"
    by (rule sorted_wrt_mono_rel[OF _ s]) (rule gap_disjoint)
  have 3: "successively (\<lambda>a b. exitDate a + 2 \<le> entryDate b) ts"
    by (rule successively_if_sorted_wrt[OF s])
  show ?thesis
    unfolding normalizedIntervalSet_def using 1 2 3 v by blast
qed




lemma mergeLoop_id:
  "successively (\<lambda>a b. exitDate a + 2 \<le> entryDate b) (c # xs) \<Longrightarrow> mergeLoop [] c xs = c # xs"
proof (induction xs arbitrary: c)
  case Nil
  show ?case by simp
next
  case (Cons n r)
  have "\<not> entryDate n \<le> exitDate c + 1"
    using Cons.prems by simp
  moreover have "mergeLoop [] n r = n # r"
    using Cons.prems by (intro Cons.IH) simp
  ultimately show ?case by (simp add: mergeLoop_Cons)
qed

lemma normalizeTrips_id:
  assumes "sorted (map entryDate ts)"
    and "successively (\<lambda>a b. exitDate a + 2 \<le> entryDate b) ts"
  shows "normalizeTrips ts = ts"
proof (cases ts)
  case Nil
  then show ?thesis by (simp add: normalizeTrips_Nil)
next
  case (Cons c xs)
  have "sort_key entryDate ts = ts"
    by (rule sort_key_id_if_sorted[OF assms(1)])
  then have "normalizeTrips ts = mergeLoop [] c xs"
    using Cons by (simp add: normalizeTrips_eq del: sort_key_simps)
  also have "\<dots> = c # xs"
    using assms(2) Cons by (intro mergeLoop_id) simp
  finally show ?thesis using Cons by simp
qed

lemma updateTripsFromSet_normalized:
  assumes "distinct ds"
  shows "normalizedIntervalSet (trips (updateTripsFromSet uuid p ds))"
    and "coveredDays (trips (updateTripsFromSet uuid p ds)) = set ds"
proof -
  have sd: "sorted_wrt (<) (sort ds)"
    using assms by (simp add: strict_sorted_iff)
  have "normalizedIntervalSet (trips (updateTripsFromSet uuid p ds))
      \<and> coveredDays (trips (updateTripsFromSet uuid p ds)) = set ds"
  proof (cases "sort ds")
    case Nil
    then have "set (sort ds) = {}" by simp
    then have "set ds = {}" by simp
    then show ?thesis
      using Nil by (simp add: updateTripsFromSet_def normalizedIntervalSet_def coveredDays_Nil)
  next
    case (Cons first rest)
    have s: "sorted_wrt (<) (first # rest)"
      using sd Cons by simp
    have t: "trips (updateTripsFromSet uuid p ds) = rleLoop uuid [] first first rest"
      using Cons by (simp add: updateTripsFromSet_def)
    have "normalizedIntervalSet (rleLoop uuid [] first first rest)"
      by (rule strong_normalized[OF rleLoop_valid rleLoop_strong[OF s]]) simp
    moreover have "coveredDays (rleLoop uuid [] first first rest) = {first..first} \<union> set rest"
      by (rule rleLoop_covered[OF s]) simp
    moreover have "{first..first} \<union> set rest = set (sort ds)"
      unfolding Cons by simp
    ultimately show ?thesis
      unfolding t by simp
  qed
  then show "normalizedIntervalSet (trips (updateTripsFromSet uuid p ds))"
    and "coveredDays (trips (updateTripsFromSet uuid p ds)) = set ds"
    by simp_all
qed

lemma normalized_stable:
  assumes "normalizedIntervalSet ts"
  shows "normalizeTrips ts = ts"
    and "calculateUsedDaysWithinWindow ts D = int (card (coveredDays ts \<inter> referenceWindow D))"
proof -
  show "normalizeTrips ts = ts"
    using assms unfolding normalizedIntervalSet_def by (blast intro: normalizeTrips_id)
  show "calculateUsedDaysWithinWindow ts D = int (card (coveredDays ts \<inter> referenceWindow D))"
    using assms unfolding normalizedIntervalSet_def by (blast intro: used_disjoint)
qed

lemma distinct_toggle_set:
  "distinct (if setHas (tripsToDateSet ts []) d then setDelete d (tripsToDateSet ts [])
             else setAdd d (tripsToDateSet ts []))"
  by (simp add: distinct_setDelete distinct_setAdd distinct_tripsToDateSet)

lemma toggleDate_normalized:
  "normalizedIntervalSet (trips (toggleDate uuid p d))"
  unfolding toggleDate_def Let_def
  by (rule updateTripsFromSet_normalized(1)[OF distinct_toggle_set])

lemma addTripRange_normalized:
  "normalizedIntervalSet (trips (addTripRange uuid p s e))"
  unfolding addTripRange_def Let_def
  by (rule updateTripsFromSet_normalized(1)) (simp add: distinct_fold_setAdd distinct_tripsToDateSet)

text \<open>
  C8. Every trip list that an edit produces, by \<open>toggleDate\<close> or by \<open>addTripRange\<close>
  and whatever the stored trips were, satisfies the invariant of a normalised interval
  set: sorted ascending, no two trips sharing a day, every gap between consecutive trips
  at least two days, and entry not after exit in each trip. So \<open>normalizeTrips\<close> returns
  such a list unchanged, and \<open>calculateUsedDaysWithinWindow\<close> on it counts every covered
  day of the window once. Both edits end in \<open>updateTripsFromSet\<close>, whose output has the
  invariant and covers exactly the dates of the set for every date set.
\<close>

theorem edit_output_normalized:
  "(\<forall>out. out = trips (toggleDate uuid p d) \<or> out = trips (addTripRange uuid p s e) \<longrightarrow>
      normalizedIntervalSet out
      \<and> normalizeTrips out = out
      \<and> calculateUsedDaysWithinWindow out D = int (card (coveredDays out \<inter> referenceWindow D)))
   \<and> (\<forall>dateSet. distinct dateSet \<longrightarrow>
        normalizedIntervalSet (trips (updateTripsFromSet uuid p dateSet))
        \<and> coveredDays (trips (updateTripsFromSet uuid p dateSet)) = set dateSet)"
  using toggleDate_normalized[of uuid p d] addTripRange_normalized[of uuid p s e]
    normalized_stable updateTripsFromSet_normalized
  by blast

theorem edit_output_normalized_witness:
  "trips (toggleDate (\<lambda>k. ''u'') \<lparr>profileId = ''p'', name = ''Me'',
        trips = [\<lparr>tripId = ''a'', entryDate = 1, exitDate = 3\<rparr>]\<rparr> 2)
     = [\<lparr>tripId = ''u'', entryDate = 1, exitDate = 1\<rparr>, \<lparr>tripId = ''u'', entryDate = 3, exitDate = 3\<rparr>]
   \<and> normalizedIntervalSet
        [\<lparr>tripId = ''u'', entryDate = 1, exitDate = 1\<rparr>, \<lparr>tripId = ''u'', entryDate = 3, exitDate = 3\<rparr>]
   \<and> normalizeTrips
        [\<lparr>tripId = ''u'', entryDate = 1, exitDate = 1\<rparr>, \<lparr>tripId = ''u'', entryDate = 3, exitDate = 3\<rparr>]
     = [\<lparr>tripId = ''u'', entryDate = 1, exitDate = 1\<rparr>, \<lparr>tripId = ''u'', entryDate = 3, exitDate = 3\<rparr>]
   \<and> distinct [3, 1, 2 :: int]
   \<and> coveredDays (trips (updateTripsFromSet (\<lambda>k. ''u'') \<lparr>profileId = ''p'', name = ''Me'',
        trips = []\<rparr> [3, 1, 2])) = {1, 2, 3}"
proof -
  let ?p = "\<lparr>profileId = ''p'', name = ''Me'', trips = [\<lparr>tripId = ''a'', entryDate = 1, exitDate = 3\<rparr>]\<rparr>"
  let ?q = "\<lparr>profileId = ''p'', name = ''Me'', trips = []\<rparr>"
  let ?u = "\<lambda>k::nat. ''u''"
  have out: "trips (toggleDate ?u ?p 2)
     = [\<lparr>tripId = ''u'', entryDate = 1, exitDate = 1\<rparr>, \<lparr>tripId = ''u'', entryDate = 3, exitDate = 3\<rparr>]"
    by code_simp
  have d: "distinct [3, 1, 2 :: int]" by simp
  note T = edit_output_normalized[of ?u ?p 2 0 0 0]
  have "trips (toggleDate ?u ?p 2) = trips (toggleDate ?u ?p 2)
      \<or> trips (toggleDate ?u ?p 2) = trips (addTripRange ?u ?p 0 0)"
    by simp
  from T[THEN conjunct1, THEN spec, THEN mp, OF this]
  have a: "normalizedIntervalSet (trips (toggleDate ?u ?p 2))
     \<and> normalizeTrips (trips (toggleDate ?u ?p 2)) = trips (toggleDate ?u ?p 2)"
    by simp
  from edit_output_normalized[of ?u ?q 0 0 0 0, THEN conjunct2, THEN spec, THEN mp, OF d]
  have b: "coveredDays (trips (updateTripsFromSet ?u ?q [3, 1, 2])) = {1, 2, 3}"
    by auto
  show ?thesis
    using a b d unfolding out by simp
qed

subsection \<open>Uniqueness of the normalised form\<close>









end
